theory Spec2Isabelle
  imports
    Main
    "HOL-Library.Word"
    "HOL-Library.Multiset"
    "HOL-Library.Char_ord"
    "HOL-Library.List_Lexorder"
begin

section \<open>Data model\<close>

text \<open>
  The types of \<^verbatim>\<open>server/internal/core/application/utils.go\<close>. The structs of the
  \<^verbatim>\<open>domain\<close>, \<^verbatim>\<open>ports\<close>, \<^verbatim>\<open>note\<close> and \<^verbatim>\<open>tree\<close> packages are declared
  outside the files at hand; only the fields that \<^verbatim>\<open>utils.go\<close> reads are kept.
  Amounts are \<^verbatim>\<open>uint64\<close>, output indices \<^verbatim>\<open>uint32\<close>, so sums wrap around.
\<close>

type_synonym u32 = "32 word"
type_synonym u64 = "64 word"
type_synonym i64 = "64 word"

record VtxoKey =
  Txid :: string
  VOut :: u32

record Vtxo = VtxoKey +
  Amount :: u64

record Receiver =
  rcvAmount :: u64

record TxRequest =
  Id :: string
  Inputs :: "Vtxo list"
  Receivers :: "Receiver list"

record BoardingInput =
  bTxid :: string
  bVOut :: u32
  bAmount :: u64

record Note =
  ID :: u64
  Value :: u32

record Outpoint =
  oTxid :: string
  oVOut :: u32

record Node =
  nTxid :: string
  ParentTxid :: string
  Leaf :: bool

type_synonym TxTree = "Node list list"

text \<open>\<^verbatim>\<open>*tree.Musig2\<close> is only stored and handed back; \<open>None\<close> is the nil pointer.\<close>

type_synonym Musig2 = string

text \<open>
  \<^verbatim>\<open>time.Time\<close> as nanoseconds on the integer line. \<^verbatim>\<open>time.Time{}\<close> is the zero
  instant (January 1, year 1 UTC), far before any clock reading.
\<close>

type_synonym Time = int

definition zeroTime :: Time where
  "zeroTime = - 62135596800 * 1000000000"

record timedTxRequest = TxRequest +
  boardingInputs :: "BoardingInput list"
  tnotes :: "Note list"
  timestamp :: Time
  pingTimestamp :: Time
  musig2Data :: "Musig2 option"
  recoveredVtxos :: "Vtxo list"

datatype error =
    DuplicatedTxRequest string
  | DuplicatedNote Note
  | DuplicatedInput string u32 string
  | DuplicatedBoardingInput string u32 string
  | DuplicatedVtxoRecovery string u32 string
  | TxRequestNotFound string
  | SumMismatch u64 u64
  | NoConnectorsFound
  | MoreVtxosThanOutpoints nat nat
  | MissingForfeitTx VtxoKey
  | WalletError string
  | TxNotFound string
  | SweepInputError string
  | IndexOutOfRange

section \<open>Go maps\<close>

text \<open>
  A Go map is an association list with distinct keys. The order of the list is the order
  in which \<^verbatim>\<open>range\<close> visits the entries; Go fixes no such order, so a statement about
  every list covers every order the runtime may choose.
\<close>

fun map_put :: "'k \<Rightarrow> 'v \<Rightarrow> ('k \<times> 'v) list \<Rightarrow> ('k \<times> 'v) list" where
  "map_put k v [] = [(k, v)]"
| "map_put k v ((k', v') # m) = (if k' = k then (k, v) # m else (k', v') # map_put k v m)"

definition map_delete :: "'k \<Rightarrow> ('k \<times> 'v) list \<Rightarrow> ('k \<times> 'v) list" where
  "map_delete k m = filter (\<lambda>(k', v'). k' \<noteq> k) m"

section \<open>The forfeit collector\<close>

text \<open>An unsigned integer in decimal, as \<^verbatim>\<open>%d\<close> prints it.\<close>

definition digit_char :: "nat \<Rightarrow> char" where
  "digit_char d = ''0123456789'' ! d"

function decimal :: "nat \<Rightarrow> string" where
  "decimal n = (if n < 10 then [digit_char n] else decimal (n div 10) @ [digit_char (n mod 10)])"
  by pat_completeness auto
termination
  by (relation "measure id") auto

declare decimal.simps [simp del]

text \<open>
  Modelled from the spec: \<^verbatim>\<open>VtxoKey.String()\<close>, which \<^verbatim>\<open>Vtxo\<close> inherits, is declared in
  the \<^verbatim>\<open>domain\<close> package, outside the files at hand; the spec gives the string as
  \<^verbatim>\<open>(txid:vout)\<close>.
\<close>

definition String :: "'a VtxoKey_scheme \<Rightarrow> string" where
  "String k = Txid k @ '':'' @ decimal (unat (VOut k))"

text \<open>The \<^verbatim>\<open>VtxoKey\<close> embedded in a \<^verbatim>\<open>Vtxo\<close>.\<close>

definition key_of :: "Vtxo \<Rightarrow> VtxoKey" where
  "key_of v = \<lparr>Txid = Txid v, VOut = VOut v\<rparr>"

text \<open>
  The \<^verbatim>\<open>builder\<close> and the lock are left out: no function below reads them. A nil map reads as
  the empty map and a nil slice as the empty list.
\<close>

record forfeitTxsMap =
  forfeitTxs :: "(VtxoKey \<times> string) list"
  connectors :: TxTree
  connectorsIndex :: "string \<rightharpoonup> Outpoint"
  vtxos :: "Vtxo list"

definition newForfeitTxsMap :: forfeitTxsMap where
  "newForfeitTxsMap =
     \<lparr>forfeitTxs = [], connectors = [], connectorsIndex = Map.empty, vtxos = []\<rparr>"

text \<open>
  \<^verbatim>\<open>init\<close>. The parameter \<open>leaves\<close> is the value of \<^verbatim>\<open>connectors.Leaves()\<close>, a method of
  the \<^verbatim>\<open>tree\<close> package outside the files at hand. \<^verbatim>\<open>sort.Slice\<close> sorts the slice that
  \<^verbatim>\<open>m.vtxos\<close> shares, so the stored list is sorted as well; the order it gives to
  inputs with equal strings is not fixed (here: the stable one), and the index does not
  depend on it. On an error the fields written so far stay written.
\<close>

definition init_index :: "Vtxo list \<Rightarrow> Outpoint list \<Rightarrow> (string \<rightharpoonup> Outpoint)" where
  "init_index vs outs = foldl (\<lambda>ix (v, out). ix(String v \<mapsto> out)) Map.empty (zip vs outs)"

definition init :: "Node list \<Rightarrow> TxTree \<Rightarrow> TxRequest list \<Rightarrow> forfeitTxsMap
    \<Rightarrow> error option \<times> forfeitTxsMap" where
  "init leaves conns requests m =
     (let vtxosToSign = concat (map Inputs requests);
          m1 = m\<lparr>vtxos := vtxosToSign, connectors := conns,
                 forfeitTxs := foldl (\<lambda>f v. map_put (key_of v) [] f) (forfeitTxs m) vtxosToSign\<rparr>
      in if length vtxosToSign > 0 then
           if length leaves = 0 then (Some NoConnectorsFound, m1)
           else
             let connectorsOutpoints = map (\<lambda>n. \<lparr>oTxid = nTxid n, oVOut = 0\<rparr>) leaves;
                 sorted_vtxos = sort_key String vtxosToSign;
                 m2 = m1\<lparr>vtxos := sorted_vtxos\<rparr>
             in if length sorted_vtxos > length connectorsOutpoints
                then (Some (MoreVtxosThanOutpoints (length sorted_vtxos)
                              (length connectorsOutpoints)), m2)
                else (None, m2\<lparr>connectorsIndex := init_index sorted_vtxos connectorsOutpoints\<rparr>)
         else (None, m1\<lparr>connectorsIndex := Map.empty\<rparr>))"

definition reset :: "forfeitTxsMap \<Rightarrow> forfeitTxsMap" where
  "reset m = m\<lparr>forfeitTxs := [], connectors := [], connectorsIndex := Map.empty, vtxos := []\<rparr>"

text \<open>
  \<^verbatim>\<open>pop\<close>: the loop stops at the first empty entry it meets; the deferred function runs
  \<^verbatim>\<open>reset\<close> on every path.
\<close>

fun pop_loop :: "(VtxoKey \<times> string) list \<Rightarrow> string list \<Rightarrow> error + string list" where
  "pop_loop [] txs = Inr txs"
| "pop_loop ((vtxo, forfeit) # rest) txs =
     (if length forfeit = 0 then Inl (MissingForfeitTx vtxo)
      else pop_loop rest (txs @ [forfeit]))"

definition pop_forfeits :: "forfeitTxsMap \<Rightarrow> (error + string list) \<times> forfeitTxsMap" where
  "pop_forfeits m = (pop_loop (forfeitTxs m) [], reset m)"

fun allSigned_loop :: "(VtxoKey \<times> string) list \<Rightarrow> bool" where
  "allSigned_loop [] = True"
| "allSigned_loop ((vtxo, txs) # rest) = (if length txs = 0 then False else allSigned_loop rest)"

definition allSigned :: "forfeitTxsMap \<Rightarrow> bool" where
  "allSigned m = allSigned_loop (forfeitTxs m)"

section \<open>The tx-request queue\<close>

text \<open>
  \<^verbatim>\<open>map[string]*timedTxRequest\<close>, each entry a pointer to a request of its own.
  The lock serialises the calls; each function below is one call.
\<close>

type_synonym txRequestsQueue = "(string \<times> timedTxRequest) list"

definition newTxRequestsQueue :: txRequestsQueue where
  "newTxRequestsQueue = []"

definition txRequest_of :: "timedTxRequest \<Rightarrow> TxRequest" where
  "txRequest_of p = \<lparr>Id = Id p, Inputs = Inputs p, Receivers = Receivers p\<rparr>"

definition len :: "txRequestsQueue \<Rightarrow> int" where
  "len m = foldl (\<lambda>count (k, p). if length (Receivers p) > 0 then count + 1 else count) 0 m"

text \<open>
  The nested duplicate searches of \<^verbatim>\<open>pushWithNotes\<close> and \<^verbatim>\<open>push\<close>: the first match in
  loop order decides which error is returned.
\<close>

definition dup_note :: "Note list \<Rightarrow> txRequestsQueue \<Rightarrow> (Note \<times> timedTxRequest \<times> Note) option" where
  "dup_note ns m =
     find (\<lambda>(note, txRequest, rNote). ID note = ID rNote)
       [(note, txRequest, rNote). note \<leftarrow> ns, txRequest \<leftarrow> map snd m, rNote \<leftarrow> tnotes txRequest]"

definition dup_input :: "Vtxo list \<Rightarrow> txRequestsQueue \<Rightarrow> (Vtxo \<times> timedTxRequest \<times> Vtxo) option" where
  "dup_input ins m =
     find (\<lambda>(input, pay, pInput). Txid input = Txid pInput \<and> VOut input = VOut pInput)
       [(input, pay, pInput). input \<leftarrow> ins, pay \<leftarrow> map snd m, pInput \<leftarrow> Inputs pay]"

definition dup_boarding ::
  "BoardingInput list \<Rightarrow> txRequestsQueue \<Rightarrow> (BoardingInput \<times> timedTxRequest \<times> BoardingInput) option" where
  "dup_boarding bs m =
     find (\<lambda>(input, request, pBoardingInput).
             bTxid input = bTxid pBoardingInput \<and> bVOut input = bVOut pBoardingInput)
       [(input, request, pBoardingInput).
          input \<leftarrow> bs, request \<leftarrow> map snd m, pBoardingInput \<leftarrow> boardingInputs request]"

definition dup_recovered :: "Vtxo list \<Rightarrow> txRequestsQueue \<Rightarrow> (Vtxo \<times> timedTxRequest \<times> Vtxo) option" where
  "dup_recovered rs m =
     find (\<lambda>(vtxo, request, pVtxo). Txid vtxo = Txid pVtxo \<and> VOut vtxo = VOut pVtxo)
       [(vtxo, request, pVtxo). vtxo \<leftarrow> rs, request \<leftarrow> map snd m, pVtxo \<leftarrow> recoveredVtxos request]"

definition pushWithNotes ::
  "Time \<Rightarrow> TxRequest \<Rightarrow> Note list \<Rightarrow> txRequestsQueue \<Rightarrow> error option \<times> txRequestsQueue" where
  "pushWithNotes now request ns m =
     (if map_of m (Id request) \<noteq> None then (Some (DuplicatedTxRequest (Id request)), m)
      else case dup_note ns m of
        Some (note, txRequest, rNote) \<Rightarrow> (Some (DuplicatedNote note), m)
      | None \<Rightarrow>
          (None, map_put (Id request)
             \<lparr>Id = Id request, Inputs = Inputs request, Receivers = Receivers request,
              boardingInputs = [], tnotes = ns, timestamp = now, pingTimestamp = zeroTime,
              musig2Data = None, recoveredVtxos = []\<rparr> m))"

definition push ::
  "Time \<Rightarrow> TxRequest \<Rightarrow> BoardingInput list \<Rightarrow> Vtxo list \<Rightarrow> Musig2 option \<Rightarrow> txRequestsQueue
    \<Rightarrow> error option \<times> txRequestsQueue" where
  "push now request bs rs musig2 m =
     (if map_of m (Id request) \<noteq> None then (Some (DuplicatedTxRequest (Id request)), m)
      else case dup_input (Inputs request) m of
        Some (input, pay, pInput) \<Rightarrow> (Some (DuplicatedInput (Txid input) (VOut input) (Id pay)), m)
      | None \<Rightarrow>
      (case dup_boarding bs m of
        Some (input, request', pBoardingInput) \<Rightarrow>
          (Some (DuplicatedBoardingInput (bTxid input) (bVOut input) (Id request')), m)
      | None \<Rightarrow>
      (case dup_recovered rs m of
        Some (vtxo, request', pVtxo) \<Rightarrow>
          (Some (DuplicatedVtxoRecovery (Txid vtxo) (VOut vtxo) (Id request')), m)
      | None \<Rightarrow>
          (None, map_put (Id request)
             \<lparr>Id = Id request, Inputs = Inputs request, Receivers = Receivers request,
              boardingInputs = bs, tnotes = [], timestamp = now, pingTimestamp = now,
              musig2Data = musig2, recoveredVtxos = rs\<rparr> m))))"

text \<open>
  \<^verbatim>\<open>pop\<close>. \<open>now\<close> is the clock reading of the call; the loop reads the clock once
  for each request, and the readings of one call are taken as one instant.
  \<^verbatim>\<open>time.Since(t).Minutes()\<close> is
  above \<^verbatim>\<open>float64(1)\<close> exactly when more than 60 * 10^9 nanoseconds have passed, and above
  \<^verbatim>\<open>float64(5)\<close> exactly when more than 300 * 10^9 have, so the gaps are compared in
  nanoseconds; a \<^verbatim>\<open>Duration\<close> saturates at about 292 years, which changes neither
  comparison. The first loop ranges over the map while deleting from it: an entry
  deleted before it is reached is not visited, hence the deletion from \<open>rest\<close> too.
\<close>

definition selectGap :: int where
  "selectGap = 1 * 60 * 1000000000"

definition deleteGap :: int where
  "deleteGap = 5 * 60 * 1000000000"

function pop_scan :: "Time \<Rightarrow> txRequestsQueue \<Rightarrow> txRequestsQueue \<Rightarrow> timedTxRequest list
    \<Rightarrow> txRequestsQueue \<times> timedTxRequest list" where
  "pop_scan now [] m requestsByTime = (m, requestsByTime)"
| "pop_scan now ((k, p) # rest) m requestsByTime =
     (if length (Receivers p) \<le> 0 then pop_scan now rest m requestsByTime
      else
        let sinceLastPing = now - pingTimestamp p
        in if sinceLastPing > selectGap then
             if sinceLastPing > deleteGap
             then pop_scan now (map_delete (Id p) rest) (map_delete (Id p) m) requestsByTime
             else pop_scan now rest m requestsByTime
           else pop_scan now rest m (requestsByTime @ [p]))"
  by pat_completeness auto
termination
  by (relation "measure (\<lambda>(now, rest, m, acc). length rest)")
     (auto simp: map_delete_def less_Suc_eq_le)

definition pop :: "Time \<Rightarrow> int \<Rightarrow> txRequestsQueue
    \<Rightarrow> (TxRequest list \<times> BoardingInput list \<times> Note list \<times> Musig2 option list \<times> Vtxo list)
        \<times> txRequestsQueue" where
  "pop now num m =
     (let (m1, scanned) = pop_scan now m m [];
          requestsByTime = sort_key timestamp scanned;
          num' = (if num < 0 \<or> num > int (length requestsByTime)
                  then int (length requestsByTime) else num);
          popped = take (nat num') requestsByTime
      in ((map txRequest_of popped, concat (map boardingInputs popped),
           concat (map tnotes popped), map musig2Data popped,
           concat (map recoveredVtxos popped)),
          foldl (\<lambda>m' p. map_delete (Id p) m') m1 popped))"

text \<open>\<^verbatim>\<open>update\<close>: the sums are \<^verbatim>\<open>uint64\<close> and wrap around.\<close>

definition sumOfInputs :: "TxRequest \<Rightarrow> timedTxRequest \<Rightarrow> u64" where
  "sumOfInputs request r =
     (let s0 = foldl (\<lambda>s input. s + Amount input) 0 (Inputs request);
          s1 = foldl (\<lambda>s boardingInput. s + bAmount boardingInput) s0 (boardingInputs r);
          s2 = foldl (\<lambda>s note. s + ucast (Value note)) s1 (tnotes r)
      in foldl (\<lambda>s vtxo. s + Amount vtxo) s2 (recoveredVtxos r))"

definition sumOfOutputs :: "TxRequest \<Rightarrow> u64" where
  "sumOfOutputs request = foldl (\<lambda>s receiver. s + rcvAmount receiver) 0 (Receivers request)"

definition update :: "TxRequest \<Rightarrow> Musig2 option \<Rightarrow> txRequestsQueue
    \<Rightarrow> error option \<times> txRequestsQueue" where
  "update request musig2 m =
     (case map_of m (Id request) of
        None \<Rightarrow> (Some (TxRequestNotFound (Id request)), m)
      | Some r \<Rightarrow>
          if sumOfInputs request r \<noteq> sumOfOutputs request
          then (Some (SumMismatch (sumOfInputs request r) (sumOfOutputs request)), m)
          else
            let r1 = r\<lparr>Id := Id request, Inputs := Inputs request, Receivers := Receivers request\<rparr>;
                r2 = (if musig2 \<noteq> None then r1\<lparr>musig2Data := musig2\<rparr> else r1)
            in (None, map_put (Id request) r2 m))"

definition updatePingTimestamp :: "Time \<Rightarrow> string \<Rightarrow> txRequestsQueue
    \<Rightarrow> error option \<times> txRequestsQueue" where
  "updatePingTimestamp now rid m =
     (case map_of m rid of
        None \<Rightarrow> (Some (TxRequestNotFound rid), m)
      | Some request \<Rightarrow> (None, map_put rid (request\<lparr>pingTimestamp := now\<rparr>) m))"

definition delete_requests :: "string list \<Rightarrow> txRequestsQueue \<Rightarrow> txRequestsQueue" where
  "delete_requests ids m = foldl (\<lambda>m' rid. map_delete rid m') m ids"

definition deleteAll :: "txRequestsQueue \<Rightarrow> txRequestsQueue" where
  "deleteAll m = []"

text \<open>
  Every writer stores a request under its own id: the queues the code can reach have
  distinct keys, and each key is the id of its request.
\<close>

definition wf_queue :: "txRequestsQueue \<Rightarrow> bool" where
  "wf_queue m \<longleftrightarrow> distinct (map fst m) \<and> list_all (\<lambda>(k, p). Id p = k) m"

section \<open>The sweeper: findSweepableOutputs\<close>

text \<open>
  The collaborators are parameters: \<open>W\<close> is \<^verbatim>\<open>walletSvc.IsTransactionConfirmed\<close> with its
  four results, taken as one view of the chain for the whole call; \<open>B\<close> is
  \<^verbatim>\<open>txbuilder.GetSweepInput\<close>, an error or the \<^verbatim>\<open>Value\<close> of the relative locktime
  (\<^verbatim>\<open>uint32\<close>) with the sweep input; \<open>C\<close> is \<^verbatim>\<open>vtxoTree.Children\<close>, a method of the
  \<^verbatim>\<open>tree\<close> package outside the files at hand. Heights and times are \<^verbatim>\<open>int64\<close>: the
  sum wraps around. A key missing from a Go map reads as the zero value.
\<close>

datatype TimeUnit = UnixTime | BlockHeight

type_synonym wallet = "string \<Rightarrow> bool \<times> i64 \<times> i64 \<times> error option"

type_synonym 's txbuilder = "Node \<Rightarrow> error + (u32 \<times> 's)"

type_synonym 's sweep_state = "(i64 \<rightharpoonup> 's list) \<times> (string \<rightharpoonup> i64) \<times> Node list"

definition cache_get :: "(string \<rightharpoonup> i64) \<Rightarrow> string \<Rightarrow> i64" where
  "cache_get blocktimeCache txid = (case blocktimeCache txid of None \<Rightarrow> 0 | Some t \<Rightarrow> t)"

definition sweep_get :: "(i64 \<rightharpoonup> 's list) \<Rightarrow> i64 \<Rightarrow> 's list" where
  "sweep_get sweepableOutputs t = (case sweepableOutputs t of None \<Rightarrow> [] | Some l \<Rightarrow> l)"

text \<open>The body of the inner loop, for one node.\<close>

definition check_node :: "wallet \<Rightarrow> 's txbuilder \<Rightarrow> TimeUnit \<Rightarrow> (string \<Rightarrow> Node list)
    \<Rightarrow> Node \<Rightarrow> 's sweep_state \<Rightarrow> error + 's sweep_state" where
  "check_node W B schedulerUnit C node st =
     (case st of (sweepableOutputs, blocktimeCache, newNodesToCheck) \<Rightarrow>
      case W (nTxid node) of (isConfirmed, height, blocktime, err) \<Rightarrow>
        case err of Some e \<Rightarrow> Inl e | None \<Rightarrow>
        if \<not> isConfirmed then
          (case
             (if blocktimeCache (ParentTxid node) = None then
                (case W (ParentTxid node) of (isConfirmed', height', blocktime', err') \<Rightarrow>
                   if \<not> isConfirmed' \<or> err' \<noteq> None then Inl (TxNotFound (ParentTxid node))
                   else Inr (blocktimeCache(ParentTxid node \<mapsto>
                          (if schedulerUnit = BlockHeight then height' else blocktime'))))
              else Inr blocktimeCache)
           of Inl e \<Rightarrow> Inl e
            | Inr blocktimeCache' \<Rightarrow>
               (case B node of
                  Inl e \<Rightarrow> Inl e
                | Inr (vtxoTreeExpiry, sweepInput) \<Rightarrow>
                    let expirationTime = cache_get blocktimeCache' (ParentTxid node)
                                           + ucast vtxoTreeExpiry
                    in Inr (sweepableOutputs(expirationTime \<mapsto>
                              sweep_get sweepableOutputs expirationTime @ [sweepInput]),
                            blocktimeCache', newNodesToCheck)))
        else
          Inr (sweepableOutputs,
               blocktimeCache(nTxid node \<mapsto> (if schedulerUnit = BlockHeight then height else blocktime)),
               if \<not> Leaf node then newNodesToCheck @ C (nTxid node) else newNodesToCheck))"

fun check_nodes :: "wallet \<Rightarrow> 's txbuilder \<Rightarrow> TimeUnit \<Rightarrow> (string \<Rightarrow> Node list)
    \<Rightarrow> Node list \<Rightarrow> 's sweep_state \<Rightarrow> error + 's sweep_state" where
  "check_nodes W B schedulerUnit C [] st = Inr st"
| "check_nodes W B schedulerUnit C (node # nodes) st =
     (case check_node W B schedulerUnit C node st of
        Inl e \<Rightarrow> Inl e
      | Inr st' \<Rightarrow> check_nodes W B schedulerUnit C nodes st')"

text \<open>
  The outer loop runs while there are nodes to check; nothing in the function bounds the
  number of rounds, so the model counts them down: \<open>None\<close> is a run that has not
  returned within \<open>fuel\<close> rounds.
\<close>

fun sweep_loop :: "nat \<Rightarrow> wallet \<Rightarrow> 's txbuilder \<Rightarrow> TimeUnit \<Rightarrow> (string \<Rightarrow> Node list)
    \<Rightarrow> Node list \<Rightarrow> (i64 \<rightharpoonup> 's list) \<Rightarrow> (string \<rightharpoonup> i64)
    \<Rightarrow> (error + (i64 \<rightharpoonup> 's list)) option" where
  "sweep_loop fuel W B schedulerUnit C nodesToCheck sweepableOutputs blocktimeCache =
     (if \<not> length nodesToCheck > 0 then Some (Inr sweepableOutputs)
      else case fuel of
        0 \<Rightarrow> None
      | Suc fuel' \<Rightarrow>
          (case check_nodes W B schedulerUnit C nodesToCheck
                  (sweepableOutputs, blocktimeCache, []) of
             Inl e \<Rightarrow> Some (Inl e)
           | Inr (sweepableOutputs', blocktimeCache', newNodesToCheck) \<Rightarrow>
               sweep_loop fuel' W B schedulerUnit C newNodesToCheck sweepableOutputs'
                 blocktimeCache'))"

declare sweep_loop.simps [simp del]

text \<open>\<^verbatim>\<open>vtxoTree[0]\<close> panics on a tree without levels.\<close>

definition findSweepableOutputs :: "nat \<Rightarrow> wallet \<Rightarrow> 's txbuilder \<Rightarrow> TimeUnit
    \<Rightarrow> (string \<Rightarrow> Node list) \<Rightarrow> TxTree \<Rightarrow> (error + (i64 \<rightharpoonup> 's list)) option" where
  "findSweepableOutputs fuel W B schedulerUnit C vtxoTree =
     (case vtxoTree of
        [] \<Rightarrow> Some (Inl IndexOutOfRange)
      | root # levels \<Rightarrow> sweep_loop fuel W B schedulerUnit C root Map.empty Map.empty)"

section \<open>Vocabulary of the properties\<close>

text \<open>
  What \<^verbatim>\<open>pop\<close> selects, and what it deletes as stale: both only among the requests with
  at least one receiver.
\<close>

definition eligible :: "Time \<Rightarrow> timedTxRequest \<Rightarrow> bool" where
  "eligible now p \<longleftrightarrow> length (Receivers p) > 0 \<and> now - pingTimestamp p \<le> selectGap"

definition expired :: "Time \<Rightarrow> timedTxRequest \<Rightarrow> bool" where
  "expired now p \<longleftrightarrow> length (Receivers p) > 0 \<and> now - pingTimestamp p > deleteGap"

text \<open>The batch of \<^verbatim>\<open>pop\<close>: the oldest selected requests, at most \<open>num\<close> unless it is negative.\<close>

definition pop_count :: "int \<Rightarrow> nat \<Rightarrow> nat" where
  "pop_count num n = (if num < 0 then n else min (nat num) n)"

definition pop_batch :: "Time \<Rightarrow> int \<Rightarrow> txRequestsQueue \<Rightarrow> timedTxRequest list" where
  "pop_batch now num m =
     (let ready = sort_key timestamp (filter (eligible now) (map snd m))
      in take (pop_count num (length ready)) ready)"

text \<open>\<^verbatim>\<open>updatePingTimestamp\<close> called once at each of the given clock readings, in order.\<close>

fun ping_all :: "Time list \<Rightarrow> string \<Rightarrow> txRequestsQueue \<Rightarrow> error option list \<times> txRequestsQueue" where
  "ping_all [] rid m = ([], m)"
| "ping_all (t # ts) rid m =
     (let (e, m') = updatePingTimestamp t rid m;
          (es, m'') = ping_all ts rid m'
      in (e # es, m''))"

text \<open>The balance the spec asks of a request, in unbounded arithmetic.\<close>

definition total_inputs :: "TxRequest \<Rightarrow> timedTxRequest \<Rightarrow> nat" where
  "total_inputs request r =
     sum_list (map (unat \<circ> Amount) (Inputs request))
     + sum_list (map (unat \<circ> bAmount) (boardingInputs r))
     + sum_list (map (unat \<circ> Value) (tnotes r))
     + sum_list (map (unat \<circ> Amount) (recoveredVtxos r))"

definition total_outputs :: "TxRequest \<Rightarrow> nat" where
  "total_outputs request = sum_list (map (unat \<circ> rcvAmount) (Receivers request))"

text \<open>Two requests that share no input VTXO, boarding input, recovered VTXO or note id.\<close>

definition shares_outpoint :: "Vtxo list \<Rightarrow> Vtxo list \<Rightarrow> bool" where
  "shares_outpoint xs ys \<longleftrightarrow> (\<exists>i \<in> set xs. \<exists>j \<in> set ys. Txid i = Txid j \<and> VOut i = VOut j)"

definition shares_boarding :: "BoardingInput list \<Rightarrow> BoardingInput list \<Rightarrow> bool" where
  "shares_boarding xs ys \<longleftrightarrow> (\<exists>i \<in> set xs. \<exists>j \<in> set ys. bTxid i = bTxid j \<and> bVOut i = bVOut j)"

definition shares_note :: "Note list \<Rightarrow> Note list \<Rightarrow> bool" where
  "shares_note xs ys \<longleftrightarrow> (\<exists>i \<in> set xs. \<exists>j \<in> set ys. ID i = ID j)"

definition disjoint_requests :: "timedTxRequest \<Rightarrow> timedTxRequest \<Rightarrow> bool" where
  "disjoint_requests p q \<longleftrightarrow>
     \<not> shares_outpoint (Inputs p) (Inputs q)
     \<and> \<not> shares_boarding (boardingInputs p) (boardingInputs q)
     \<and> \<not> shares_outpoint (recoveredVtxos p) (recoveredVtxos q)
     \<and> \<not> shares_note (tnotes p) (tnotes q)"

definition unique_queue :: "txRequestsQueue \<Rightarrow> bool" where
  "unique_queue m \<longleftrightarrow>
     (\<forall>(k, p) \<in> set m. \<forall>(k', q) \<in> set m. k \<noteq> k' \<longrightarrow> disjoint_requests p q)"

text \<open>
  The chain as the wallet reports it, and the nodes the traversal inspects: the root
  level, then level by level the children of the confirmed nodes that are not leaves.
\<close>

definition tx_confirmed :: "wallet \<Rightarrow> string \<Rightarrow> bool" where
  "tx_confirmed W txid = (case W txid of (isConfirmed, height, blocktime, err) \<Rightarrow>
     isConfirmed \<and> err = None)"

definition tx_time :: "wallet \<Rightarrow> TimeUnit \<Rightarrow> string \<Rightarrow> i64" where
  "tx_time W schedulerUnit txid = (case W txid of (isConfirmed, height, blocktime, err) \<Rightarrow>
     if schedulerUnit = BlockHeight then height else blocktime)"

definition next_level :: "wallet \<Rightarrow> (string \<Rightarrow> Node list) \<Rightarrow> Node list \<Rightarrow> Node list" where
  "next_level W C nodes =
     concat (map (\<lambda>n. C (nTxid n)) (filter (\<lambda>n. tx_confirmed W (nTxid n) \<and> \<not> Leaf n) nodes))"

fun frontier :: "wallet \<Rightarrow> (string \<Rightarrow> Node list) \<Rightarrow> Node list \<Rightarrow> nat \<Rightarrow> Node list" where
  "frontier W C root 0 = root"
| "frontier W C root (Suc k) = next_level W C (frontier W C root k)"

definition inspected :: "wallet \<Rightarrow> (string \<Rightarrow> Node list) \<Rightarrow> Node list \<Rightarrow> nat \<Rightarrow> Node list" where
  "inspected W C root d = concat (map (frontier W C root) [0..<d])"

text \<open>
  What the unconfirmed nodes of a list contribute: one pair of expiration time and sweep
  input each, the time being the height or block time of the parent plus the relative
  locktime.
\<close>

definition contributions :: "wallet \<Rightarrow> 's txbuilder \<Rightarrow> TimeUnit \<Rightarrow> Node list \<Rightarrow> (i64 \<times> 's) list" where
  "contributions W B schedulerUnit nodes =
     concat (map (\<lambda>n. if tx_confirmed W (nTxid n) then []
                       else case B n of
                              Inl e \<Rightarrow> []
                            | Inr (vtxoTreeExpiry, sweepInput) \<Rightarrow>
                                [(tx_time W schedulerUnit (ParentTxid n) + ucast vtxoTreeExpiry,
                                  sweepInput)]) nodes)"

definition due_at :: "(i64 \<times> 's) list \<Rightarrow> i64 \<Rightarrow> 's list" where
  "due_at cs t = map snd (filter (\<lambda>(t', sweepInput). t' = t) cs)"

text \<open>
  What the inner loop maintains: the cache holds only confirmed transactions with their
  height or time, and no expiration time is mapped to an empty list.
\<close>

definition cache_ok :: "wallet \<Rightarrow> TimeUnit \<Rightarrow> (string \<rightharpoonup> i64) \<Rightarrow> bool" where
  "cache_ok W u blocktimeCache \<longleftrightarrow>
     (\<forall>txid t. blocktimeCache txid = Some t \<longrightarrow> tx_confirmed W txid \<and> t = tx_time W u txid)"

definition no_empty :: "(i64 \<rightharpoonup> 's list) \<Rightarrow> bool" where
  "no_empty sweepableOutputs \<longleftrightarrow> (\<forall>t. sweepableOutputs t \<noteq> Some [])"

text \<open>
  In a list that was checked without error every unconfirmed node has a confirmed parent
  and a sweep input; a node is an orphan when neither it nor its parent is confirmed.
\<close>

definition settled :: "wallet \<Rightarrow> 's txbuilder \<Rightarrow> Node list \<Rightarrow> bool" where
  "settled W B nodes \<longleftrightarrow>
     (\<forall>n \<in> set nodes. \<not> tx_confirmed W (nTxid n) \<longrightarrow>
        tx_confirmed W (ParentTxid n) \<and> (\<exists>x si. B n = Inr (x, si)))"

definition orphan :: "wallet \<Rightarrow> Node \<Rightarrow> bool" where
  "orphan W n \<longleftrightarrow> \<not> tx_confirmed W (nTxid n) \<and> \<not> tx_confirmed W (ParentTxid n)"

section \<open>Example inputs\<close>

definition ex_leaves :: "Node list" where
  "ex_leaves = [\<lparr>nTxid = ''b'', ParentTxid = ''r'', Leaf = True\<rparr>,
                \<lparr>nTxid = ''a'', ParentTxid = ''r'', Leaf = True\<rparr>]"

definition ex_requests :: "TxRequest list" where
  "ex_requests = [\<lparr>Id = ''q'', Inputs = [\<lparr>Txid = ''y'', VOut = 0, Amount = 1\<rparr>,
       \<lparr>Txid = ''x'', VOut = 0, Amount = 1\<rparr>], Receivers = []\<rparr>]"

definition ex_signed :: forfeitTxsMap where
  "ex_signed = newForfeitTxsMap\<lparr>forfeitTxs :=
     [(\<lparr>Txid = ''x'', VOut = 0\<rparr>, ''tx1''), (\<lparr>Txid = ''y'', VOut = 0\<rparr>, ''tx2'')]\<rparr>"

definition ex_unsigned :: forfeitTxsMap where
  "ex_unsigned = snd (init ex_leaves [ex_leaves] ex_requests newForfeitTxsMap)"

definition ex_req :: "string \<Rightarrow> nat \<Rightarrow> Time \<Rightarrow> Time \<Rightarrow> timedTxRequest" where
  "ex_req rid n born ping =
     \<lparr>Id = rid, Inputs = [], Receivers = replicate n \<lparr>rcvAmount = 0\<rparr>,
      boardingInputs = [], tnotes = [], timestamp = born, pingTimestamp = ping,
      musig2Data = None, recoveredVtxos = []\<rparr>"

definition ex_queue :: txRequestsQueue where
  "ex_queue = [(''a'', ex_req ''a'' 1 30 100), (''b'', ex_req ''b'' 1 10 100),
               (''c'', ex_req ''c'' 1 5 (- 400000000000)), (''d'', ex_req ''d'' 0 1 (- 400000000000))]"

definition ex_idle_queue :: txRequestsQueue where
  "ex_idle_queue = snd (push 0 \<lparr>Id = ''a'', Inputs = [], Receivers = []\<rparr> [] [] None newTxRequestsQueue)"

definition ex_mint :: TxRequest where
  "ex_mint = \<lparr>Id = ''a'', Inputs = [],
     Receivers = [\<lparr>rcvAmount = 9223372036854775808\<rparr>, \<lparr>rcvAmount = 9223372036854775808\<rparr>]\<rparr>"

definition ex_vtxo :: Vtxo where
  "ex_vtxo = \<lparr>Txid = ''t'', VOut = 0, Amount = 1000\<rparr>"

definition ex_pushed :: txRequestsQueue where
  "ex_pushed = snd (push 0 \<lparr>Id = ''a'', Inputs = [ex_vtxo], Receivers = []\<rparr> [] [] None
     newTxRequestsQueue)"

definition ex_root :: Node where
  "ex_root = \<lparr>nTxid = ''root'', ParentTxid = ''round'', Leaf = False\<rparr>"

definition ex_left :: Node where
  "ex_left = \<lparr>nTxid = ''left'', ParentTxid = ''root'', Leaf = True\<rparr>"

definition ex_right :: Node where
  "ex_right = \<lparr>nTxid = ''right'', ParentTxid = ''root'', Leaf = False\<rparr>"

definition ex_below :: Node where
  "ex_below = \<lparr>nTxid = ''below'', ParentTxid = ''right'', Leaf = True\<rparr>"

definition ex_tree :: TxTree where
  "ex_tree = [[ex_root], [ex_left, ex_right], [ex_below]]"

definition ex_children :: "string \<Rightarrow> Node list" where
  "ex_children txid = filter (\<lambda>n. ParentTxid n = txid) (concat ex_tree)"

definition ex_builder :: "string txbuilder" where
  "ex_builder n = Inr (144, nTxid n)"

definition ex_fresh_chain :: wallet where
  "ex_fresh_chain txid =
     (if txid = ''round'' then (True, 100, 1700000000, None) else (False, 0, 0, None))"

definition ex_unrolled_chain :: wallet where
  "ex_unrolled_chain txid =
     (if txid = ''round'' then (True, 100, 1700000000, None)
      else if txid = ''root'' then (True, 110, 1700006000, None)
      else if txid = ''right'' then (True, 120, 1700012000, None)
      else (False, 0, 0, None))"

section \<open>The forfeit collector: binding and completeness\<close>





lemmas ex_forfeit_defs =
  init_def ex_leaves_def ex_requests_def newForfeitTxsMap_def init_index_def Let_def
  String_def decimal.simps digit_char_def key_of_def



lemma allSigned_loop_iff: "allSigned_loop xs \<longleftrightarrow> (\<forall>(vtxo, tx) \<in> set xs. tx \<noteq> [])"
  by (induction xs) (auto split: if_splits)

lemma pop_loop_complete:
  "\<forall>(vtxo, tx) \<in> set xs. tx \<noteq> [] \<Longrightarrow> pop_loop xs txs = Inr (txs @ map snd xs)"
  by (induction xs arbitrary: txs) auto

lemma pop_loop_missing:
  "\<not> (\<forall>(vtxo, tx) \<in> set xs. tx \<noteq> []) \<Longrightarrow>
   \<exists>vtxo. pop_loop xs txs = Inl (MissingForfeitTx vtxo) \<and> (vtxo, []) \<in> set xs"
proof (induction xs arbitrary: txs)
  case Nil
  then show ?case by simp
next
  case (Cons x xs)
  obtain vtxo tx where x: "x = (vtxo, tx)" by (cases x)
  show ?case
  proof (cases "tx = []")
    case True
    with x show ?thesis by auto
  next
    case False
    with Cons.prems x have "\<not> (\<forall>(vtxo, tx) \<in> set xs. tx \<noteq> [])" by auto
    from Cons.IH [OF this, of "txs @ [tx]"] False x show ?thesis by auto
  qed
qed

text \<open>
  C2. \<^verbatim>\<open>allSigned\<close> holds exactly when every entry of the forfeit map is non-empty.
  Then \<^verbatim>\<open>pop\<close> returns every collected transaction (in the order the map is ranged
  over); otherwise it fails with the missing-forfeit error of a VTXO whose entry is
  empty. On both paths the forfeit map, the connectors, the connector index and the VTXO
  list are empty afterwards.
\<close>

theorem forfeit_pop_allSigned:
  "(allSigned m \<longleftrightarrow> (\<forall>(vtxo, tx) \<in> set (forfeitTxs m). tx \<noteq> []))
   \<and> (allSigned m \<longrightarrow> fst (pop_forfeits m) = Inr (map snd (forfeitTxs m)))
   \<and> (\<not> allSigned m \<longrightarrow>
        (\<exists>vtxo. fst (pop_forfeits m) = Inl (MissingForfeitTx vtxo)
           \<and> (vtxo, []) \<in> set (forfeitTxs m)))
   \<and> snd (pop_forfeits m)
       = m\<lparr>forfeitTxs := [], connectors := [], connectorsIndex := Map.empty, vtxos := []\<rparr>"
  using pop_loop_complete [of "forfeitTxs m" "[]"] pop_loop_missing [of "forfeitTxs m" "[]"]
  by (simp add: allSigned_def allSigned_loop_iff pop_forfeits_def reset_def)

theorem forfeit_pop_allSigned_witness:
  "allSigned ex_signed \<and> fst (pop_forfeits ex_signed) = Inr [''tx1'', ''tx2'']
   \<and> \<not> allSigned ex_unsigned
   \<and> fst (pop_forfeits ex_unsigned) = Inl (MissingForfeitTx \<lparr>Txid = ''y'', VOut = 0\<rparr>)
   \<and> snd (pop_forfeits ex_unsigned) = newForfeitTxsMap"
  using forfeit_pop_allSigned [of ex_signed] forfeit_pop_allSigned [of ex_unsigned]
  by (simp add: ex_signed_def ex_unsigned_def ex_forfeit_defs allSigned_def pop_forfeits_def
      reset_def)

section \<open>The queue: what pop selects and deletes\<close>

lemma map_delete_absent: "k \<notin> fst ` set m \<Longrightarrow> map_delete k m = m"
  by (induction m) (auto simp: map_delete_def)

lemma expired_keys_Cons: "expired now p \<Longrightarrow> x = (k, p) \<Longrightarrow> filter (\<lambda>(k', p'). k' \<notin> fst ` {(k', p') \<in> set rest. expired now p'}) (map_delete k m)
        = filter (\<lambda>(k', p'). k' \<notin> fst ` {(k', p') \<in> set (x # rest). expired now p'}) m"
  unfolding map_delete_def filter_filter
  by (intro filter_cong refl) force

lemma live_keys_Cons: "\<not> expired now p \<Longrightarrow> x = (k, p) \<Longrightarrow> fst ` {(k', p') \<in> set (x # rest). expired now p'}
        = fst ` {(k', p') \<in> set rest. expired now p'}"
  by auto

lemma wf_queue_Cons:
  "wf_queue ((k, p) # m) \<longleftrightarrow> k \<notin> fst ` set m \<and> Id p = k \<and> wf_queue m"
  by (auto simp: wf_queue_def)

lemma wf_queue_key_unique:
  "wf_queue m \<Longrightarrow> (k, p) \<in> set m \<Longrightarrow> (k, p') \<in> set m \<Longrightarrow> p = p'"
  by (metis wf_queue_def eq_key_imp_eq_value)

lemma wf_queue_Id: "wf_queue m \<Longrightarrow> (k, p) \<in> set m \<Longrightarrow> Id p = k"
  by (auto simp: wf_queue_def list_all_iff)

lemma foldl_map_delete:
  "foldl (\<lambda>m' p. map_delete (Id p) m') m ps = filter (\<lambda>(k, p). k \<notin> Id ` set ps) m"
proof (induction ps arbitrary: m)
  case Nil
  then show ?case by simp
next
  case (Cons a ps)
  show ?case unfolding foldl_Cons Cons.IH
    unfolding map_delete_def filter_filter by (intro filter_cong refl) auto
qed

lemma gaps: "selectGap < deleteGap"
  by (simp add: selectGap_def deleteGap_def)

lemma pop_scan_step_expired:
  "expired now p \<Longrightarrow> Id p = k \<Longrightarrow> k \<notin> fst ` set rest \<Longrightarrow>
   pop_scan now ((k, p) # rest) m acc = pop_scan now rest (map_delete k m) acc"
  using gaps by (simp add: expired_def Let_def map_delete_absent)

lemma pop_scan_step_eligible:
  "eligible now p \<Longrightarrow> pop_scan now ((k, p) # rest) m acc = pop_scan now rest m (acc @ [p])"
  by (simp add: eligible_def Let_def)

lemma pop_scan_step_skip:
  "\<not> eligible now p \<Longrightarrow> \<not> expired now p \<Longrightarrow>
   pop_scan now ((k, p) # rest) m acc = pop_scan now rest m acc"
  by (cases "Receivers p = []") (simp_all add: eligible_def expired_def Let_def)

lemma expired_not_eligible: "expired now p \<Longrightarrow> \<not> eligible now p"
  using gaps by (auto simp: eligible_def expired_def)

lemma pop_scan_wf:
  "wf_queue rest \<Longrightarrow>
   pop_scan now rest m acc =
     (filter (\<lambda>(k, p). k \<notin> fst ` {(k', p') \<in> set rest. expired now p'}) m,
      acc @ filter (eligible now) (map snd rest))"
proof (induction rest arbitrary: m acc)
  case Nil
  then show ?case by simp
next
  case (Cons x rest)
  obtain k p where x: "x = (k, p)" by (cases x)
  from Cons.prems have k: "k \<notin> fst ` set rest" and idp: "Id p = k" and wf: "wf_queue rest"
    unfolding x wf_queue_Cons by simp_all
  note IH = Cons.IH [OF wf]
  show ?case
  proof (cases "expired now p")
    case True
    have "pop_scan now (x # rest) m acc = pop_scan now rest (map_delete k m) acc"
      unfolding x by (rule pop_scan_step_expired [OF True idp k])
    also have "\<dots> = (filter (\<lambda>(k', p'). k' \<notin> fst ` {(k', p') \<in> set rest. expired now p'})
        (map_delete k m), acc @ filter (eligible now) (map snd rest))"
      by (rule IH)
    also have "\<dots> = (filter (\<lambda>(k', p'). k' \<notin> fst ` {(k', p') \<in> set (x # rest). expired now p'}) m,
        acc @ filter (eligible now) (map snd (x # rest)))"
      using expired_keys_Cons [OF True x, of rest m] expired_not_eligible [OF True] by (simp add: x)
    finally show ?thesis .
  next
    case False
    note 2 = live_keys_Cons [OF False x, of rest]
    show ?thesis
    proof (cases "eligible now p")
      case True
      have "pop_scan now (x # rest) m acc = pop_scan now rest m (acc @ [p])"
        unfolding x by (rule pop_scan_step_eligible [OF True])
      also have "\<dots> = (filter (\<lambda>(k', p'). k' \<notin> fst ` {(k', p') \<in> set rest. expired now p'}) m,
          (acc @ [p]) @ filter (eligible now) (map snd rest))"
        by (rule IH)
      finally show ?thesis unfolding 2 using True by (simp add: x)
    next
      case ne: False
      have "pop_scan now (x # rest) m acc = pop_scan now rest m acc"
        unfolding x by (rule pop_scan_step_skip [OF ne False])
      also have "\<dots> = (filter (\<lambda>(k', p'). k' \<notin> fst ` {(k', p') \<in> set rest. expired now p'}) m,
          acc @ filter (eligible now) (map snd rest))"
        by (rule IH)
      finally show ?thesis unfolding 2 using ne by (simp add: x)
    qed
  qed
qed

lemma expired_keys:
  assumes "wf_queue m" and "(k, p) \<in> set m"
  shows "k \<in> fst ` {(k', p') \<in> set m. expired now p'} \<longleftrightarrow> expired now p"
proof
  assume "k \<in> fst ` {(k', p') \<in> set m. expired now p'}"
  then obtain p' where "(k, p') \<in> set m" and e: "expired now p'" by auto
  with wf_queue_key_unique [OF assms(1) assms(2)] have "p = p'" by simp
  with e show "expired now p" by simp
next
  assume "expired now p"
  with assms(2) have "(k, p) \<in> {(k', p') \<in> set m. expired now p'}" by simp
  then show "k \<in> fst ` {(k', p') \<in> set m. expired now p'}" by (rule image_eqI [rotated]) simp
qed

lemma pop_scan_queue:
  assumes "wf_queue m"
  shows "pop_scan now m m [] =
     (filter (\<lambda>(k, p). \<not> expired now p) m, filter (eligible now) (map snd m))"
proof -
  have "filter (\<lambda>(k, p). k \<notin> fst ` {(k', p') \<in> set m. expired now p'}) m
      = filter (\<lambda>(k, p). \<not> expired now p) m"
  proof (rule filter_cong [OF refl])
    fix x assume x: "x \<in> set m"
    obtain k p where kp: "x = (k, p)" by (cases x)
    from expired_keys [OF assms, of k p now] x
    show "(case x of (k, p) \<Rightarrow> k \<notin> fst ` {(k', p') \<in> set m. expired now p'})
        = (case x of (k, p) \<Rightarrow> \<not> expired now p)" unfolding kp by simp
  qed
  with pop_scan_wf [OF assms, of now m "[]"] show ?thesis by simp
qed

lemma pop_wf:
  assumes "wf_queue m"
  shows "pop now num m =
    ((map txRequest_of (pop_batch now num m), concat (map boardingInputs (pop_batch now num m)),
      concat (map tnotes (pop_batch now num m)), map musig2Data (pop_batch now num m),
      concat (map recoveredVtxos (pop_batch now num m))),
     filter (\<lambda>(k, p). \<not> expired now p \<and> k \<notin> Id ` set (pop_batch now num m)) m)"
proof -
  let ?ready = "sort_key timestamp (filter (eligible now) (map snd m))"
  have n: "nat (if num < 0 \<or> num > int (length ?ready) then int (length ?ready) else num)
      = (if num < 0 \<or> num > int (length ?ready) then length ?ready else nat num)"
    by simp
  have t: "take (if num < 0 \<or> num > int (length ?ready) then length ?ready else nat num) ?ready
      = pop_batch now num m"
    by (auto simp: pop_batch_def pop_count_def Let_def min_def)
  show ?thesis
    unfolding pop_def pop_scan_queue [OF assms] Let_def prod.case n t foldl_map_delete filter_filter
    by (simp add: case_prod_unfold conj_commute)
qed

lemma map_put_keys: "fst ` set (map_put k v m) = insert k (fst ` set m)"
proof (induction m)
  case Nil
  show ?case by simp
next
  case (Cons a m)
  obtain k' v' where a: "a = (k', v')" by (cases a)
  show ?case unfolding a using Cons.IH by (cases "k' = k") (simp_all add: insert_commute)
qed

lemma map_put_other:
  "k' \<noteq> k \<Longrightarrow> (k', p) \<in> set (map_put k v m) \<longleftrightarrow> (k', p) \<in> set m"
  by (induction m) (auto split: if_splits)

lemma map_put_same:
  "distinct (map fst m) \<Longrightarrow> (k, p) \<in> set (map_put k v m) \<Longrightarrow> p = v"
proof (induction m)
  case Nil
  then show ?case by simp
next
  case (Cons a m)
  obtain k' v' where a: "a = (k', v')" by (cases a)
  show ?case
  proof (cases "k' = k")
    case True
    with Cons.prems a have "(k, p) \<in> set m \<Longrightarrow> False" by (force simp: image_iff)
    with Cons.prems a True show ?thesis by auto
  next
    case False
    with Cons a show ?thesis by auto
  qed
qed

lemma map_put_in: "(k, v) \<in> set (map_put k v m)"
  by (induction m) auto

lemma map_of_map_put: "map_of (map_put k v m) = (map_of m)(k \<mapsto> v)"
  by (induction m) (auto simp: fun_eq_iff)

lemma map_put_distinct: "distinct (map fst m) \<Longrightarrow> distinct (map fst (map_put k v m))"
  by (induction m) (auto simp: map_put_keys)

lemma wf_queue_map_put:
  assumes "wf_queue m" and "Id v = k"
  shows "wf_queue (map_put k v m)"
proof -
  have "Id p = k'" if "(k', p) \<in> set (map_put k v m)" for k' p
  proof (cases "k' = k")
    case True
    with that assms map_put_same [of m k p v] show ?thesis by (simp add: wf_queue_def)
  next
    case False
    with that have "(k', p) \<in> set m" by (simp add: map_put_other)
    with assms(1) show ?thesis by (auto simp: wf_queue_def list_all_iff)
  qed
  with assms(1) map_put_distinct [of m k v] show ?thesis
    by (auto simp: wf_queue_def list_all_iff)
qed

lemma wf_queue_filter: "wf_queue m \<Longrightarrow> wf_queue (filter P m)"
  by (auto simp: wf_queue_def list_all_iff distinct_map_filter)

lemma len_count: "len m = int (length (filter (\<lambda>(k, p). length (Receivers p) > 0) m))"
proof -
  have "foldl (\<lambda>count (k, p). if length (Receivers p) > 0 then count + 1 else count) c m
      = c + int (length (filter (\<lambda>(k, p). length (Receivers p) > 0) m))" for c :: int
    by (induction m arbitrary: c) (auto split: prod.splits)
  from this [of 0] show ?thesis by (simp add: len_def)
qed

lemma pop_batch_set:
  "set (pop_batch now num m) \<subseteq> {p \<in> snd ` set m. eligible now p}"
proof -
  have "set (pop_batch now num m) \<subseteq> set (sort_key timestamp (filter (eligible now) (map snd m)))"
    unfolding pop_batch_def Let_def by (rule set_take_subset)
  then show ?thesis by auto
qed

lemma pop_batch_sorted: "sorted (map timestamp (pop_batch now num m))"
  unfolding pop_batch_def Let_def take_map [symmetric]
  by (rule sorted_wrt_take) (rule sorted_sort_key)

lemma pop_batch_length:
  "length (pop_batch now num m)
     = (if num < 0 then length (filter (eligible now) (map snd m))
        else min (nat num) (length (filter (eligible now) (map snd m))))"
  by (simp add: pop_batch_def pop_count_def Let_def)

lemma batch_key_iff:
  assumes wf: "wf_queue m" and kp: "(k, p) \<in> set m"
  shows "k \<in> Id ` set (pop_batch now num m) \<longleftrightarrow> p \<in> set (pop_batch now num m)"
proof
  assume "k \<in> Id ` set (pop_batch now num m)"
  then obtain p' where p': "p' \<in> set (pop_batch now num m)" and k: "Id p' = k" by auto
  from p' pop_batch_set [of now num m] obtain k' where "(k', p') \<in> set m" by auto
  with wf_queue_Id [OF wf this] k wf_queue_key_unique [OF wf kp] have "p = p'" by simp
  with p' show "p \<in> set (pop_batch now num m)" by simp
next
  assume "p \<in> set (pop_batch now num m)"
  with wf_queue_Id [OF wf kp] show "k \<in> Id ` set (pop_batch now num m)" by auto
qed

text \<open>
  C3 (as amended). On a queue whose keys are the ids of its requests, \<^verbatim>\<open>pop(n)\<close>
  looks only at the requests with at least one receiver. Of these it leaves out every
  request last pinged more than 1 minute ago and deletes every request last pinged more
  than 5 minutes ago. It returns the others in the order of their creation timestamp, at
  most \<open>n\<close> of them when \<open>n\<close> is non-negative and all of them when it is negative, and
  removes every returned request from the queue. Every other request, those without
  receivers included, stays in the queue.
\<close>

theorem pop_fifo:
  assumes wf: "wf_queue m"
  shows "let batch = pop_batch now num m; m' = snd (pop now num m) in
      fst (pop now num m)
        = (map txRequest_of batch, concat (map boardingInputs batch), concat (map tnotes batch),
           map musig2Data batch, concat (map recoveredVtxos batch))
    \<and> (\<forall>p \<in> set batch. p \<in> snd ` set m \<and> length (Receivers p) > 0
          \<and> now - pingTimestamp p \<le> selectGap)
    \<and> sorted (map timestamp batch)
    \<and> length batch
        = (if num < 0 then length (filter (eligible now) (map snd m))
           else min (nat num) (length (filter (eligible now) (map snd m))))
    \<and> (\<forall>(k, p) \<in> set m. (k, p) \<in> set m' \<longleftrightarrow>
          \<not> (length (Receivers p) > 0 \<and> now - pingTimestamp p > deleteGap) \<and> p \<notin> set batch)
    \<and> set m' \<subseteq> set m
    \<and> (\<forall>r \<in> set (fst (fst (pop now num m))). Id r \<notin> fst ` set m')"
proof -
  let ?b = "pop_batch now num m"
  note p = pop_wf [OF wf, of now num]
  have 1: "\<forall>p \<in> set ?b. p \<in> snd ` set m \<and> length (Receivers p) > 0
      \<and> now - pingTimestamp p \<le> selectGap"
    using pop_batch_set [of now num m] by (auto simp: eligible_def)
  have 2: "\<forall>(k, p) \<in> set m. (k, p) \<in> set (snd (pop now num m)) \<longleftrightarrow>
      \<not> (length (Receivers p) > 0 \<and> now - pingTimestamp p > deleteGap) \<and> p \<notin> set ?b"
    unfolding p using batch_key_iff [OF wf, of _ _ now num] by (auto simp: expired_def)
  have 3: "set (snd (pop now num m)) \<subseteq> set m"
    unfolding p by auto
  have 4: "\<forall>r \<in> set (fst (fst (pop now num m))). Id r \<notin> fst ` set (snd (pop now num m))"
    unfolding p by (auto simp: txRequest_of_def)
  show ?thesis
    unfolding Let_def using 1 2 3 4 pop_batch_sorted [of now num m] pop_batch_length [of now num m]
    by (simp add: p)
qed

lemmas ex_queue_defs = ex_queue_def ex_req_def ex_idle_queue_def newTxRequestsQueue_def
  wf_queue_def pop_def push_def Let_def selectGap_def deleteGap_def map_delete_def txRequest_of_def
  dup_input_def dup_boarding_def dup_recovered_def dup_note_def

theorem pop_fifo_witness:
  "wf_queue ex_queue
   \<and> fst (fst (pop 100 1 ex_queue)) = [\<lparr>Id = ''b'', Inputs = [], Receivers = [\<lparr>rcvAmount = 0\<rparr>]\<rparr>]
   \<and> snd (pop 100 1 ex_queue) = [(''a'', ex_req ''a'' 1 30 100), (''d'', ex_req ''d'' 0 1 (- 400000000000))]"
  using pop_fifo [of ex_queue 100 1]
  by (simp add: ex_queue_defs)

text \<open>
  C3 as stated fails: a request pushed without receivers and last pinged 6 minutes ago
  is not deleted by \<^verbatim>\<open>pop\<close>.
\<close>

theorem pop_deletes_stale_counterexample:
  "ex_idle_queue = [(''a'', ex_req ''a'' 0 0 0)]
   \<and> 360000000000 - pingTimestamp (ex_req ''a'' 0 0 0) > deleteGap
   \<and> snd (pop 360000000000 (- 1) ex_idle_queue) = ex_idle_queue"
  by (simp add: ex_queue_defs)

section \<open>The queue: pings\<close>

lemma map_put_twice: "map_put k v' (map_put k v m) = map_put k v' m"
  by (induction m) auto

lemma updatePing_found:
  "map_of m rid = Some r \<Longrightarrow>
   updatePingTimestamp t rid m = (None, map_put rid (r\<lparr>pingTimestamp := t\<rparr>) m)"
  by (simp add: updatePingTimestamp_def)

lemma updatePing_twice:
  assumes "map_of m rid = Some r"
  shows "updatePingTimestamp t' rid (snd (updatePingTimestamp t rid m))
    = updatePingTimestamp t' rid m"
proof -
  have "map_of (map_put rid (r\<lparr>pingTimestamp := t\<rparr>) m) rid = Some (r\<lparr>pingTimestamp := t\<rparr>)"
    by (simp add: map_of_map_put)
  from updatePing_found [OF this, of t'] show ?thesis
    by (simp add: updatePing_found [OF assms] map_put_twice)
qed

lemma ping_all_last:
  "map_of m rid = Some r \<Longrightarrow> ts \<noteq> [] \<Longrightarrow>
   ping_all ts rid m = (replicate (length ts) None, snd (updatePingTimestamp (last ts) rid m))"
proof (induction ts arbitrary: m r)
  case Nil
  then show ?case by simp
next
  case (Cons t ts)
  let ?m' = "map_put rid (r\<lparr>pingTimestamp := t\<rparr>) m"
  have m': "map_of ?m' rid = Some (r\<lparr>pingTimestamp := t\<rparr>)" by (simp add: map_of_map_put)
  show ?case
  proof (cases "ts = []")
    case True
    with Cons.prems show ?thesis by (simp add: updatePing_found)
  next
    case False
    from Cons.IH [OF m' False] updatePing_twice [OF Cons.prems(1), of "last ts" t] False
    show ?thesis by (simp add: updatePing_found [OF Cons.prems(1)])
  qed
qed

lemma sorted_le_last: "sorted ts \<Longrightarrow> t \<in> set ts \<Longrightarrow> t \<le> last (ts :: int list)"
  by (induction ts) auto

text \<open>
  C6. For an id in the queue, N calls of \<^verbatim>\<open>updatePingTimestamp\<close> (N at least 1) all succeed
  and leave the queue as one call at the time of the last of them does: only the ping
  timestamp of that request changes, to the time of the latest call, which is the latest
  of all when the clock does not go back. For an absent id the call returns the not-found
  error and leaves the queue as it is.
\<close>

theorem updatePing_idempotent:
  "(map_of m rid \<noteq> None \<longrightarrow> ts \<noteq> [] \<longrightarrow>
      ping_all ts rid m = (replicate (length ts) None, snd (updatePingTimestamp (last ts) rid m))
      \<and> map_option pingTimestamp (map_of (snd (ping_all ts rid m)) rid) = Some (last ts)
      \<and> (sorted ts \<longrightarrow> (\<forall>t \<in> set ts. t \<le> last ts)))
   \<and> (\<forall>r. map_of m rid = Some r \<longrightarrow>
        updatePingTimestamp t rid m = (None, map_put rid (r\<lparr>pingTimestamp := t\<rparr>) m))
   \<and> (map_of m rid = None \<longrightarrow> updatePingTimestamp t rid m = (Some (TxRequestNotFound rid), m))"
proof (intro conjI impI allI)
  assume "map_of m rid \<noteq> None" and ts: "ts \<noteq> []"
  then obtain r where r: "map_of m rid = Some r" by auto
  from ping_all_last [OF r ts]
  show 1: "ping_all ts rid m = (replicate (length ts) None, snd (updatePingTimestamp (last ts) rid m))" .
  show "map_option pingTimestamp (map_of (snd (ping_all ts rid m)) rid) = Some (last ts)"
    unfolding 1 by (simp add: updatePing_found [OF r] map_of_map_put)
  assume "sorted ts"
  then show "\<forall>t \<in> set ts. t \<le> last ts"
    by (auto intro: sorted_le_last)
next
  fix r assume "map_of m rid = Some r"
  then show "updatePingTimestamp t rid m = (None, map_put rid (r\<lparr>pingTimestamp := t\<rparr>) m)"
    by (rule updatePing_found)
next
  assume "map_of m rid = None"
  then show "updatePingTimestamp t rid m = (Some (TxRequestNotFound rid), m)"
    by (simp add: updatePingTimestamp_def)
qed

theorem updatePing_idempotent_witness:
  "map_of ex_queue ''a'' \<noteq> None
   \<and> ping_all [200, 300] ''a'' ex_queue = ([None, None], snd (updatePingTimestamp 300 ''a'' ex_queue))
   \<and> map_option pingTimestamp (map_of (snd (ping_all [200, 300] ''a'' ex_queue)) ''a'') = Some 300
   \<and> map_of ex_queue ''z'' = None
   \<and> updatePingTimestamp 300 ''z'' ex_queue = (Some (TxRequestNotFound ''z''), ex_queue)"
  using updatePing_idempotent [of ex_queue "''a''" "[200, 300]" 300]
    updatePing_idempotent [of ex_queue "''z''" "[200, 300]" 300]
  by (simp add: ex_queue_def)

section \<open>The queue: requests without receivers\<close>

lemma wf_queue_map_of: "wf_queue m \<Longrightarrow> (k, p) \<in> set m \<Longrightarrow> map_of m k = Some p"
  by (simp add: wf_queue_def)

lemma push_keeps:
  assumes "map_of m k \<noteq> None" and "(k, p) \<in> set m"
  shows "(k, p) \<in> set (snd (push t request bs rs mu m))"
proof (cases "fst (push t request bs rs mu m)")
  case None
  then have "map_of m (Id request) = None" and "snd (push t request bs rs mu m)
      = map_put (Id request)
         \<lparr>Id = Id request, Inputs = Inputs request, Receivers = Receivers request,
          boardingInputs = bs, tnotes = [], timestamp = t, pingTimestamp = t,
          musig2Data = mu, recoveredVtxos = rs\<rparr> m"
    by (auto simp: push_def split: if_splits option.splits)
  moreover from this(1) assms(1) have "k \<noteq> Id request" by auto
  ultimately show ?thesis using assms(2) by (simp add: map_put_other)
next
  case (Some e)
  then have "snd (push t request bs rs mu m) = m"
    by (auto simp: push_def split: if_splits option.splits)
  with assms show ?thesis by simp
qed

lemma pushWithNotes_keeps:
  assumes "map_of m k \<noteq> None" and "(k, p) \<in> set m"
  shows "(k, p) \<in> set (snd (pushWithNotes t request ns m))"
proof (cases "fst (pushWithNotes t request ns m)")
  case None
  then have "map_of m (Id request) = None" and "snd (pushWithNotes t request ns m)
      = map_put (Id request)
         \<lparr>Id = Id request, Inputs = Inputs request, Receivers = Receivers request,
          boardingInputs = [], tnotes = ns, timestamp = t, pingTimestamp = zeroTime,
          musig2Data = None, recoveredVtxos = []\<rparr> m"
    by (auto simp: pushWithNotes_def split: if_splits option.splits)
  moreover from this(1) assms(1) have "k \<noteq> Id request" by auto
  ultimately show ?thesis using assms(2) by (simp add: map_put_other)
next
  case (Some e)
  then have "snd (pushWithNotes t request ns m) = m"
    by (auto simp: pushWithNotes_def split: if_splits option.splits)
  with assms show ?thesis by simp
qed

lemma updatePing_keeps:
  assumes wf: "wf_queue m" and kp: "(k, p) \<in> set m"
  shows "\<exists>p'. (k, p') \<in> set (snd (updatePingTimestamp t rid m)) \<and> Receivers p' = Receivers p"
proof (cases "map_of m rid")
  case None
  with kp show ?thesis by (auto simp: updatePingTimestamp_def)
next
  case (Some r)
  show ?thesis
  proof (cases "rid = k")
    case True
    with Some wf_queue_map_of [OF wf kp] have "r = p" by simp
    with True map_put_in [of k "p\<lparr>pingTimestamp := t\<rparr>" m] Some show ?thesis
      by (auto simp: updatePing_found)
  next
    case False
    with kp have "(k, p) \<in> set (map_put rid (r\<lparr>pingTimestamp := t\<rparr>) m)"
      by (simp add: map_put_other)
    with Some show ?thesis by (auto simp: updatePing_found)
  qed
qed

lemma len_without:
  assumes wf: "wf_queue m" and kp: "(k, p) \<in> set m" and nr: "Receivers p = []"
  shows "len (map_delete k m) = len m"
proof -
  have "filter (\<lambda>(k', p'). length (Receivers p') > 0) (map_delete k m)
      = filter (\<lambda>(k', p'). length (Receivers p') > 0) m"
    unfolding map_delete_def filter_filter
  proof (rule filter_cong [OF refl])
    fix x assume x: "x \<in> set m"
    obtain k' p' where x': "x = (k', p')" by (cases x)
    from x x' wf_queue_key_unique [OF wf kp, of p'] nr
    show "((case x of (k', v') \<Rightarrow> k' \<noteq> k) \<and> (case x of (k', p') \<Rightarrow> 0 < length (Receivers p')))
        = (case x of (k', p') \<Rightarrow> 0 < length (Receivers p'))"
      by auto
  qed
  then show ?thesis by (simp add: len_count)
qed

text \<open>
  C10. A request without receivers, in a queue whose keys are the ids of its requests, is
  never returned and never deleted by \<^verbatim>\<open>pop\<close>, whatever the age of its last ping;
  \<^verbatim>\<open>len\<close> does not count it; and \<^verbatim>\<open>push\<close>, \<^verbatim>\<open>pushWithNotes\<close> and
  \<^verbatim>\<open>updatePingTimestamp\<close> leave it in the queue without receivers. Only \<^verbatim>\<open>delete\<close>,
  \<^verbatim>\<open>deleteAll\<close> or an \<^verbatim>\<open>update\<close> remain to change that.
\<close>

theorem no_receivers_invisible:
  assumes wf: "wf_queue m" and kp: "(k, p) \<in> set m" and nr: "Receivers p = []"
  shows "(k, p) \<in> set (snd (pop now num m))
    \<and> (\<forall>r \<in> set (fst (fst (pop now num m))). Id r \<noteq> k)
    \<and> len m = len (map_delete k m)
    \<and> (k, p) \<in> set (snd (push t request bs rs mu m))
    \<and> (k, p) \<in> set (snd (pushWithNotes t request ns m))
    \<and> (\<exists>p'. (k, p') \<in> set (snd (updatePingTimestamp t rid m)) \<and> Receivers p' = [])"
proof -
  from nr have ne: "\<not> eligible now p" and nx: "\<not> expired now p"
    by (simp_all add: eligible_def expired_def)
  from ne pop_batch_set [of now num m] have nb: "p \<notin> set (pop_batch now num m)" by auto
  with batch_key_iff [OF wf kp, of now num] have nk: "k \<notin> Id ` set (pop_batch now num m)" by simp
  from kp nx nk have 1: "(k, p) \<in> set (snd (pop now num m))"
    unfolding pop_wf [OF wf] by simp
  from nk have 2: "\<forall>r \<in> set (fst (fst (pop now num m))). Id r \<noteq> k"
    unfolding pop_wf [OF wf] by (auto simp: txRequest_of_def)
  from wf_queue_map_of [OF wf kp] have k: "map_of m k \<noteq> None" by simp
  from updatePing_keeps [OF wf kp, of t rid] nr
  have 3: "\<exists>p'. (k, p') \<in> set (snd (updatePingTimestamp t rid m)) \<and> Receivers p' = []" by simp
  from 1 2 3 len_without [OF wf kp nr] push_keeps [OF k kp] pushWithNotes_keeps [OF k kp]
  show ?thesis by simp
qed

theorem no_receivers_invisible_witness:
  "wf_queue ex_queue \<and> (''d'', ex_req ''d'' 0 1 (- 400000000000)) \<in> set ex_queue
   \<and> Receivers (ex_req ''d'' 0 1 (- 400000000000)) = []
   \<and> 100 - pingTimestamp (ex_req ''d'' 0 1 (- 400000000000)) > deleteGap
   \<and> (''d'', ex_req ''d'' 0 1 (- 400000000000)) \<in> set (snd (pop 100 (- 1) ex_queue))
   \<and> len ex_queue = 3"
  using no_receivers_invisible [of ex_queue "''d''" "ex_req ''d'' 0 1 (- 400000000000)" 100 "- 1"]
  by (simp add: ex_queue_defs len_def)

section \<open>The queue: the balance check of update\<close>

lemma foldl_word_sum:
  "foldl (\<lambda>s x. s + f x) a xs = a + of_nat (sum_list (map (unat \<circ> f) xs))"
  for a :: u64
  by (induction xs arbitrary: a) (simp_all add: add.assoc)

lemma foldl_note_sum:
  "foldl (\<lambda>s x. s + ucast (Value x)) a xs = a + of_nat (sum_list (map (unat \<circ> Value) xs))"
  for a :: u64
  by (induction xs arbitrary: a) (simp_all add: add.assoc)

lemma sumOfInputs_total: "sumOfInputs request r = of_nat (total_inputs request r)"
  unfolding sumOfInputs_def total_inputs_def Let_def
  by (subst foldl_note_sum) (simp add: foldl_word_sum add.assoc)

lemma sumOfOutputs_total: "sumOfOutputs request = of_nat (total_outputs request)"
  by (simp add: sumOfOutputs_def total_outputs_def foldl_word_sum)

text \<open>
  What \<^verbatim>\<open>update\<close> does decide: the balance modulo 2^64. A rejected request leaves the
  queue as it is, an unknown id gives the not-found error.
\<close>

lemma update_balance:
  assumes "map_of m (Id request) = Some r"
  shows "fst (update request mu m) = None
      \<longleftrightarrow> total_inputs request r mod 2 ^ 64 = total_outputs request mod 2 ^ 64"
    and "fst (update request mu m) \<noteq> None \<Longrightarrow> snd (update request mu m) = m"
proof -
  have "(of_nat (total_inputs request r) :: u64) = of_nat (total_outputs request)
      \<longleftrightarrow> total_inputs request r mod 2 ^ 64 = total_outputs request mod 2 ^ 64"
    by (simp add: word_of_nat_eq_iff take_bit_eq_mod)
  with assms show "fst (update request mu m) = None
      \<longleftrightarrow> total_inputs request r mod 2 ^ 64 = total_outputs request mod 2 ^ 64"
    by (simp add: update_def Let_def sumOfInputs_total sumOfOutputs_total)
  from assms show "fst (update request mu m) \<noteq> None \<Longrightarrow> snd (update request mu m) = m"
    by (simp add: update_def Let_def split: if_splits)
qed

lemma update_balance_exact:
  assumes "map_of m (Id request) = Some r"
    and "total_inputs request r < 2 ^ 64" and "total_outputs request < 2 ^ 64"
  shows "fst (update request mu m) = None \<longleftrightarrow> total_inputs request r = total_outputs request"
  using update_balance(1) [OF assms(1), of mu] assms(2,3) by simp

lemma update_stores:
  assumes "map_of m (Id request) = Some r" and "fst (update request mu m) = None"
  shows "map_of (snd (update request mu m)) (Id request)
    = Some (r\<lparr>Id := Id request, Inputs := Inputs request, Receivers := Receivers request,
              musig2Data := (if mu \<noteq> None then mu else musig2Data r)\<rparr>)"
  using assms by (auto simp: update_def Let_def map_of_map_put split: if_splits)

lemma update_not_found:
  "map_of m (Id request) = None \<Longrightarrow>
   update request mu m = (Some (TxRequestNotFound (Id request)), m)"
  by (simp add: update_def)

text \<open>
  C5 fails on the code where the \<^verbatim>\<open>uint64\<close> sums wrap around: a request without
  inputs and with two receivers of 2^63 each has outputs of 2^64 against inputs of 0, and
  \<^verbatim>\<open>update\<close> accepts it and stores the receivers.
\<close>

theorem update_overflow_accepted:
  "map_of ex_idle_queue (Id ex_mint) \<noteq> None
   \<and> fst (update ex_mint None ex_idle_queue) = None
   \<and> total_inputs ex_mint (ex_req ''a'' 0 0 0) = 0
   \<and> total_outputs ex_mint = 2 ^ 64
   \<and> map (Receivers \<circ> snd) (snd (update ex_mint None ex_idle_queue)) = [Receivers ex_mint]"
  by (simp add: ex_queue_defs ex_mint_def update_def sumOfInputs_def sumOfOutputs_def
      total_inputs_def total_outputs_def)

section \<open>The queue: duplicates on push\<close>

lemma dup_input_None:
  "dup_input ins m = None \<longleftrightarrow> (\<forall>(k, p) \<in> set m. \<not> shares_outpoint ins (Inputs p))"
  by (fastforce simp: dup_input_def find_None_iff shares_outpoint_def)

lemma dup_recovered_None:
  "dup_recovered rs m = None \<longleftrightarrow> (\<forall>(k, p) \<in> set m. \<not> shares_outpoint rs (recoveredVtxos p))"
  by (fastforce simp: dup_recovered_def find_None_iff shares_outpoint_def)

lemma dup_boarding_None:
  "dup_boarding bs m = None \<longleftrightarrow> (\<forall>(k, p) \<in> set m. \<not> shares_boarding bs (boardingInputs p))"
  by (fastforce simp: dup_boarding_def find_None_iff shares_boarding_def)

lemma dup_note_None:
  "dup_note ns m = None \<longleftrightarrow> (\<forall>(k, p) \<in> set m. \<not> shares_note ns (tnotes p))"
  by (fastforce simp: dup_note_def find_None_iff shares_note_def)

text \<open>
  What the two push functions reject, and what their accepted calls preserve: \<^verbatim>\<open>push\<close>
  keeps the requests of the queue pairwise disjoint, \<^verbatim>\<open>pushWithNotes\<close> does when the
  request it stores has no input VTXOs.
\<close>

lemma push_accepts_iff:
  "fst (push t request bs rs mu m) = None \<longleftrightarrow>
     map_of m (Id request) = None
     \<and> (\<forall>(k, p) \<in> set m. \<not> shares_outpoint (Inputs request) (Inputs p)
           \<and> \<not> shares_boarding bs (boardingInputs p)
           \<and> \<not> shares_outpoint rs (recoveredVtxos p))"
proof -
  have "fst (push t request bs rs mu m) = None \<longleftrightarrow>
      map_of m (Id request) = None \<and> dup_input (Inputs request) m = None
      \<and> dup_boarding bs m = None \<and> dup_recovered rs m = None"
    by (auto simp: push_def split: option.splits)
  then show ?thesis
    unfolding dup_input_None dup_boarding_None dup_recovered_None by blast
qed

lemma push_rejected_unchanged:
  "fst (push t request bs rs mu m) \<noteq> None \<Longrightarrow> snd (push t request bs rs mu m) = m"
  by (auto simp: push_def split: option.splits if_splits)

lemma pushWithNotes_accepts_iff:
  "fst (pushWithNotes t request ns m) = None \<longleftrightarrow>
     map_of m (Id request) = None \<and> (\<forall>(k, p) \<in> set m. \<not> shares_note ns (tnotes p))"
proof -
  have "fst (pushWithNotes t request ns m) = None \<longleftrightarrow>
      map_of m (Id request) = None \<and> dup_note ns m = None"
    by (auto simp: pushWithNotes_def split: option.splits)
  then show ?thesis unfolding dup_note_None by blast
qed

lemma pushWithNotes_rejected_unchanged:
  "fst (pushWithNotes t request ns m) \<noteq> None \<Longrightarrow> snd (pushWithNotes t request ns m) = m"
  by (auto simp: pushWithNotes_def split: option.splits if_splits)

lemma map_put_fresh: "map_of m k = None \<Longrightarrow> set (map_put k v m) = insert (k, v) (set m)"
  by (induction m) (auto split: if_splits)

lemma disjoint_requests_sym: "disjoint_requests p q \<Longrightarrow> disjoint_requests q p"
  unfolding disjoint_requests_def shares_outpoint_def shares_boarding_def shares_note_def
  by (intro conjI notI; elim conjE bexE; force)

lemma unique_queue_insert:
  assumes u: "unique_queue m" and k: "map_of m k = None"
    and d: "\<forall>(k', q) \<in> set m. disjoint_requests v q"
  shows "unique_queue (map_put k v m)"
  unfolding unique_queue_def map_put_fresh [OF k]
  using u d disjoint_requests_sym by (fastforce simp: unique_queue_def)

lemma push_unique:
  assumes "unique_queue m" and "fst (push t request bs rs mu m) = None"
  shows "unique_queue (snd (push t request bs rs mu m))"
proof -
  let ?v = "\<lparr>Id = Id request, Inputs = Inputs request, Receivers = Receivers request,
      boardingInputs = bs, tnotes = [], timestamp = t, pingTimestamp = t,
      musig2Data = mu, recoveredVtxos = rs\<rparr>"
  from assms(2) have k: "map_of m (Id request) = None"
    and d: "\<forall>(k', q) \<in> set m. disjoint_requests ?v q"
    unfolding push_accepts_iff by (auto simp: disjoint_requests_def shares_note_def)
  from assms(2) have "snd (push t request bs rs mu m) = map_put (Id request) ?v m"
    by (auto simp: push_def split: option.splits if_splits)
  with unique_queue_insert [OF assms(1) k d] show ?thesis by simp
qed

lemma pushWithNotes_unique:
  assumes "unique_queue m" and "fst (pushWithNotes t request ns m) = None"
    and "Inputs request = []"
  shows "unique_queue (snd (pushWithNotes t request ns m))"
proof -
  let ?v = "\<lparr>Id = Id request, Inputs = Inputs request, Receivers = Receivers request,
      boardingInputs = [], tnotes = ns, timestamp = t, pingTimestamp = zeroTime,
      musig2Data = None, recoveredVtxos = []\<rparr>"
  from assms(2,3) have k: "map_of m (Id request) = None"
    and d: "\<forall>(k', q) \<in> set m. disjoint_requests ?v q"
    unfolding pushWithNotes_accepts_iff
    by (auto simp: disjoint_requests_def shares_outpoint_def shares_boarding_def)
  from assms(2) have "snd (pushWithNotes t request ns m) = map_put (Id request) ?v m"
    by (auto simp: pushWithNotes_def split: option.splits if_splits)
  with unique_queue_insert [OF assms(1) k d] show ?thesis by simp
qed

text \<open>
  C4 fails on the code: \<^verbatim>\<open>push\<close> rejects a request whose input VTXO is already
  held by the queue, \<^verbatim>\<open>pushWithNotes\<close> stores the same request without a look at its
  inputs, and two requests of the queue then share an input VTXO outpoint.
\<close>

theorem pushWithNotes_shares_input:
  "fst (push 1 \<lparr>Id = ''b'', Inputs = [ex_vtxo], Receivers = []\<rparr> [] [] None ex_pushed)
     = Some (DuplicatedInput ''t'' 0 ''a'')
   \<and> fst (pushWithNotes 1 \<lparr>Id = ''b'', Inputs = [ex_vtxo], Receivers = []\<rparr> [] ex_pushed) = None
   \<and> map (\<lambda>(k, p). (k, Inputs p))
        (snd (pushWithNotes 1 \<lparr>Id = ''b'', Inputs = [ex_vtxo], Receivers = []\<rparr> [] ex_pushed))
     = [(''a'', [ex_vtxo]), (''b'', [ex_vtxo])]"
  by (simp add: ex_pushed_def ex_vtxo_def ex_queue_defs pushWithNotes_def)

section \<open>The queue: reachable states\<close>

text \<open>The queues the code can reach: every operation keeps each request under its own id.\<close>

lemma wf_queue_new: "wf_queue newTxRequestsQueue"
  by (simp add: newTxRequestsQueue_def wf_queue_def)

lemma wf_queue_operations:
  assumes wf: "wf_queue m"
  shows "wf_queue (snd (push t request bs rs mu m))"
    and "wf_queue (snd (pushWithNotes t request ns m))"
    and "wf_queue (snd (pop now num m))"
    and "wf_queue (snd (update request mu m))"
    and "wf_queue (snd (updatePingTimestamp t rid m))"
    and "wf_queue (delete_requests ids m)"
    and "wf_queue (deleteAll m)"
proof -
  show "wf_queue (snd (push t request bs rs mu m))"
    using wf by (auto simp: push_def wf_queue_map_put split: option.splits)
  show "wf_queue (snd (pushWithNotes t request ns m))"
    using wf by (auto simp: pushWithNotes_def wf_queue_map_put split: option.splits)
  show "wf_queue (snd (pop now num m))"
    unfolding pop_wf [OF wf] snd_conv by (rule wf_queue_filter [OF wf])
  show "wf_queue (snd (update request mu m))"
    using wf by (auto simp: update_def Let_def wf_queue_map_put split: option.splits)
  show "wf_queue (snd (updatePingTimestamp t rid m))"
  proof (cases "map_of m rid")
    case None
    with wf show ?thesis by (simp add: updatePingTimestamp_def)
  next
    case (Some r)
    then have "(rid, r) \<in> set m" by (rule map_of_SomeD)
    from wf_queue_Id [OF wf this] wf Some show ?thesis
      by (simp add: updatePing_found wf_queue_map_put)
  qed
  have "foldl (\<lambda>m' rid. map_delete rid m') m ids = filter (\<lambda>(k, p). k \<notin> set ids) m"
  proof (induction ids arbitrary: m)
    case Nil
    show ?case by simp
  next
    case (Cons a ids)
    show ?case unfolding foldl_Cons Cons.IH
      unfolding map_delete_def filter_filter by (intro filter_cong refl) auto
  qed
  then show "wf_queue (delete_requests ids m)"
    by (simp add: delete_requests_def wf_queue_filter [OF wf])
  show "wf_queue (deleteAll m)"
    by (simp add: deleteAll_def wf_queue_def)
qed

section \<open>The sweeper: the frontier and its sweep inputs\<close>


lemma cache_ok_upd:
  "cache_ok W u c \<Longrightarrow> tx_confirmed W txid \<Longrightarrow> cache_ok W u (c(txid \<mapsto> tx_time W u txid))"
  by (simp add: cache_ok_def)

lemma check_node_confirmed:
  assumes "tx_confirmed W (nTxid n)"
  shows "check_node W B u C n (sw, c, new)
    = Inr (sw, c(nTxid n \<mapsto> tx_time W u (nTxid n)), new @ next_level W C [n])"
proof -
  obtain ic h b e where w: "W (nTxid n) = (ic, h, b, e)" by (cases "W (nTxid n)") auto
  with assms have "ic" and "e = None" by (simp_all add: tx_confirmed_def)
  with w assms show ?thesis
    by (simp add: check_node_def tx_time_def next_level_def)
qed

lemma check_node_orphan:
  assumes "cache_ok W u c" and "\<not> tx_confirmed W (nTxid n)" and "\<not> tx_confirmed W (ParentTxid n)"
  shows "\<exists>e. check_node W B u C n (sw, c, new) = Inl e"
proof -
  obtain ic h b e where w: "W (nTxid n) = (ic, h, b, e)" by (cases "W (nTxid n)") auto
  obtain ic' h' b' e' where w': "W (ParentTxid n) = (ic', h', b', e')"
    by (cases "W (ParentTxid n)") auto
  from assms(1,3) have c: "c (ParentTxid n) = None"
    by (cases "c (ParentTxid n)") (auto simp: cache_ok_def)
  from assms(3) w' have p: "\<not> ic' \<or> e' \<noteq> None" by (simp add: tx_confirmed_def)
  show ?thesis
  proof (cases e)
    case (Some x)
    with w show ?thesis by (simp add: check_node_def)
  next
    case None
    with assms(2) w have "\<not> ic" by (simp add: tx_confirmed_def)
    with None w w' c p show ?thesis by (auto simp: check_node_def)
  qed
qed

lemma check_node_unconfirmed:
  assumes ok: "cache_ok W u c" and un: "\<not> tx_confirmed W (nTxid n)"
    and run: "check_node W B u C n (sw, c, new) = Inr st'"
  shows "tx_confirmed W (ParentTxid n) \<and>
    (\<exists>x si c'. B n = Inr (x, si) \<and> cache_ok W u c' \<and>
       st' = (sw(tx_time W u (ParentTxid n) + ucast x
                   \<mapsto> sweep_get sw (tx_time W u (ParentTxid n) + ucast x) @ [si]), c', new))"
proof -
  obtain ic h b e where w: "W (nTxid n) = (ic, h, b, e)" by (cases "W (nTxid n)") auto
  obtain ic' h' b' e' where w': "W (ParentTxid n) = (ic', h', b', e')"
    by (cases "W (ParentTxid n)") auto
  from run w have e: "e = None" by (cases e) (simp_all add: check_node_def)
  with un w have ic: "\<not> ic" by (simp add: tx_confirmed_def)
  have conf: "tx_confirmed W (ParentTxid n)"
  proof (rule ccontr)
    assume "\<not> tx_confirmed W (ParentTxid n)"
    from check_node_orphan [OF ok un this, of B C sw new] run show False by simp
  qed
  with w' have p: "ic'" "e' = None" by (simp_all add: tx_confirmed_def)
  define c' where "c' = (if c (ParentTxid n) = None
     then c(ParentTxid n \<mapsto> tx_time W u (ParentTxid n)) else c)"
  have ok': "cache_ok W u c'"
    unfolding c'_def using ok conf by (simp add: cache_ok_upd)
  have get: "cache_get c' (ParentTxid n) = tx_time W u (ParentTxid n)"
    unfolding c'_def using ok by (auto simp: cache_get_def cache_ok_def)
  have step: "check_node W B u C n (sw, c, new) =
      (case B n of Inl e \<Rightarrow> Inl e
       | Inr (x, si) \<Rightarrow> Inr (sw(cache_get c' (ParentTxid n) + ucast x
            \<mapsto> sweep_get sw (cache_get c' (ParentTxid n) + ucast x) @ [si]), c', new))"
  proof -
    have tt: "tx_time W u (ParentTxid n) = (if u = BlockHeight then h' else b')"
      using w' by (simp add: tx_time_def)
    show ?thesis
      using w w' e ic p unfolding c'_def tt
      by (cases "B n"; cases "c (ParentTxid n)")
         (simp_all add: check_node_def Let_def split: prod.splits)
  qed
  show ?thesis
  proof (cases "B n")
    case (Inl err)
    with step run show ?thesis by simp
  next
    case (Inr r)
    obtain x si where r: "r = (x, si)" by (cases r)
    from step run Inr r get ok' conf show ?thesis by auto
  qed
qed

lemma sweep_get_upd:
  "sweep_get (sw(t \<mapsto> sweep_get sw t @ [si])) t' = sweep_get sw t' @ (if t' = t then [si] else [])"
  by (simp add: sweep_get_def)

lemma no_empty_upd: "no_empty sw \<Longrightarrow> no_empty (sw(t \<mapsto> l @ [si]))"
  by (simp add: no_empty_def)

lemma contributions_Cons:
  "contributions W B u (n # ns) = contributions W B u [n] @ contributions W B u ns"
  by (simp add: contributions_def)


lemma due_at_append: "due_at (cs @ cs') t = due_at cs t @ due_at cs' t"
  by (simp add: due_at_def)

lemma next_level_Cons: "next_level W C (n # ns) = next_level W C [n] @ next_level W C ns"
  by (simp add: next_level_def)

lemma check_node_spec:
  assumes ok: "cache_ok W u c" and ne: "no_empty sw"
    and run: "check_node W B u C n (sw, c, new) = Inr (sw', c', new')"
  shows "cache_ok W u c' \<and> no_empty sw' \<and> new' = new @ next_level W C [n]
    \<and> (\<forall>t. sweep_get sw' t = sweep_get sw t @ due_at (contributions W B u [n]) t)
    \<and> settled W B [n]"
proof (cases "tx_confirmed W (nTxid n)")
  case True
  from run ok ne show ?thesis
    unfolding check_node_confirmed [OF True]
    using True by (auto simp: cache_ok_upd contributions_def due_at_def settled_def)
next
  case False
  from check_node_unconfirmed [OF ok False run]
  obtain x si where p: "tx_confirmed W (ParentTxid n)" and b: "B n = Inr (x, si)"
    and ok': "cache_ok W u c'" and new': "new' = new"
    and sw': "sw' = sw(tx_time W u (ParentTxid n) + ucast x
        \<mapsto> sweep_get sw (tx_time W u (ParentTxid n) + ucast x) @ [si])"
    by auto
  have nl: "next_level W C [n] = []" using False by (simp add: next_level_def)
  have co: "contributions W B u [n] = [(tx_time W u (ParentTxid n) + ucast x, si)]"
    using False b by (simp add: contributions_def)
  show ?thesis
    unfolding sw' new' nl co sweep_get_upd
    using ok' ne p b False by (auto simp: no_empty_upd due_at_def settled_def)
qed

lemma settled_Cons: "settled W B (n # ns) \<longleftrightarrow> settled W B [n] \<and> settled W B ns"
  by (auto simp: settled_def)


lemma check_nodes_spec:
  assumes "cache_ok W u c" and "no_empty sw"
    and "check_nodes W B u C ns (sw, c, new) = Inr (sw', c', new')"
  shows "cache_ok W u c' \<and> no_empty sw' \<and> new' = new @ next_level W C ns
    \<and> (\<forall>t. sweep_get sw' t = sweep_get sw t @ due_at (contributions W B u ns) t)
    \<and> settled W B ns"
  using assms
proof (induction ns arbitrary: sw c new)
  case Nil
  then show ?case
    by (simp add: next_level_def contributions_def due_at_def settled_def)
next
  case (Cons n ns)
  from Cons.prems(3) obtain sw1 c1 new1
    where 1: "check_node W B u C n (sw, c, new) = Inr (sw1, c1, new1)"
      and 2: "check_nodes W B u C ns (sw1, c1, new1) = Inr (sw', c', new')"
    by (auto split: sum.splits)
  note s1 = check_node_spec [OF Cons.prems(1,2) 1]
  from s1 have ok1: "cache_ok W u c1" and ne1: "no_empty sw1" by simp_all
  note s2 = Cons.IH [OF ok1 ne1 2]
  show ?case
    unfolding next_level_Cons [of W C n ns] contributions_Cons [of W B u n ns]
      settled_Cons [of W B n ns] due_at_append
    using s1 s2 by simp
qed

lemma check_nodes_orphan:
  assumes "cache_ok W u c" and "no_empty sw" and "\<exists>n \<in> set ns. orphan W n"
  shows "\<exists>e. check_nodes W B u C ns (sw, c, new) = Inl e"
proof (rule ccontr)
  assume "\<not> (\<exists>e. check_nodes W B u C ns (sw, c, new) = Inl e)"
  then obtain st where "check_nodes W B u C ns (sw, c, new) = Inr st"
    by (cases "check_nodes W B u C ns (sw, c, new)") auto
  moreover obtain sw' c' new' where "st = (sw', c', new')" by (cases st)
  ultimately have "settled W B ns" using check_nodes_spec [OF assms(1,2)] by blast
  with assms(3) show False by (auto simp: settled_def orphan_def)
qed









lemmas ex_sweep_defs = findSweepableOutputs_def sweep_loop.simps check_node_def ex_tree_def
  ex_root_def ex_left_def ex_right_def ex_below_def ex_children_def ex_builder_def
  ex_fresh_chain_def ex_unrolled_chain_def cache_get_def sweep_get_def tx_confirmed_def
  tx_time_def next_level_def inspected_def contributions_def due_at_def Let_def



text \<open>
  A round that nobody has unrolled: only the commitment transaction is confirmed, so the
  traversal stops at the root, which is swept at the height of the commitment
  transaction plus the locktime.
\<close>

lemma sweepable_fresh_round:
  "inspected ex_fresh_chain ex_children [ex_root] 3 = [ex_root]
   \<and> findSweepableOutputs 3 ex_fresh_chain ex_builder BlockHeight ex_children ex_tree
     = Some (Inr [244 \<mapsto> [''root'']])"
  by (simp add: ex_sweep_defs numeral_3_eq_3)

end
